theory Spec2Isabelle
  imports Complex_Main
begin

section \<open>Blackjack simulator: a shallow embedding of \<^verbatim>\<open>src/main.py\<close>\<close>

text \<open>
  Conventions of the embedding.
  \<^item> Python \<^verbatim>\<open>int\<close> is \<open>int\<close>. A money amount (\<^verbatim>\<open>float\<close> in the source) is a finite IEEE 754
    double, given by its \<open>real\<close> value. Every arithmetic operation of the source on amounts
    is the exact operation followed by \<open>round_double\<close>, the rounding of binary64 (to
    nearest, ties to even); negation and comparisons are exact. Infinities, NaN and overflow
    (a result of magnitude \<open>2 ^ 1024\<close> or more) are outside the model, and \<^verbatim>\<open>-0.0\<close> is the
    same as \<^verbatim>\<open>0.0\<close>.
  \<^item> Exceptions are values of type \<open>error\<close>. A method that mutates its object returns the
    object as well, also when it raises, because the caller keeps the mutated object.
  \<^item> The local variable \<^verbatim>\<open>total\<close> of the source is written \<open>tot\<close> (\<open>total\<close> is a constant of
    HOL).
  \<^item> The module-wide random generator used by \<^verbatim>\<open>random.shuffle\<close> is an explicit sequence
    of raw draws carried in the shoe.
\<close>

subsection \<open>Card\<close>

text \<open>
  \<^verbatim>\<open>Deck.RANKS\<close> is the only place ranks come from, so a rank is one of its thirteen
  symbols; \<open>rank_str\<close> gives the Python string of each.
\<close>

datatype rank =
  Two | Three | Four | Five | Six | Seven | Eight | Nine | Ten | Jack | Queen | King | Ace

fun rank_str :: "rank \<Rightarrow> string" where
  "rank_str Two = ''2''"
| "rank_str Three = ''3''"
| "rank_str Four = ''4''"
| "rank_str Five = ''5''"
| "rank_str Six = ''6''"
| "rank_str Seven = ''7''"
| "rank_str Eight = ''8''"
| "rank_str Nine = ''9''"
| "rank_str Ten = ''10''"
| "rank_str Jack = ''J''"
| "rank_str Queen = ''Q''"
| "rank_str King = ''K''"
| "rank_str Ace = ''A''"

datatype card = Card (card_rank: rank)

text \<open>\<^verbatim>\<open>int(self.rank)\<close> on the nine numeric rank strings.\<close>

fun int_of_rank :: "rank \<Rightarrow> int" where
  "int_of_rank Two = 2"
| "int_of_rank Three = 3"
| "int_of_rank Four = 4"
| "int_of_rank Five = 5"
| "int_of_rank Six = 6"
| "int_of_rank Seven = 7"
| "int_of_rank Eight = 8"
| "int_of_rank Nine = 9"
| "int_of_rank Ten = 10"
| "int_of_rank r = 0"

text \<open>\<^verbatim>\<open>Card.value\<close>: the last equation of \<open>int_of_rank\<close> is never reached from here.\<close>

definition card_value :: "card \<Rightarrow> int" where
  "card_value c =
     (if card_rank c = Ace then 11
      else if card_rank c \<in> set [Jack, Queen, King] then 10
      else int_of_rank (card_rank c))"

subsection \<open>Hand\<close>

type_synonym hand = "card list"

definition add_card :: "hand \<Rightarrow> card \<Rightarrow> hand" where
  "add_card h c = h @ [c]"

text \<open>The \<^verbatim>\<open>for card in self.cards\<close> loop of \<^verbatim>\<open>Hand.value\<close>.\<close>

fun count_loop :: "card list \<Rightarrow> int \<Rightarrow> int \<Rightarrow> int \<times> int" where
  "count_loop [] tot aces = (tot, aces)"
| "count_loop (c # cs) tot aces =
     count_loop cs (tot + card_value c) (if card_rank c = Ace then aces + 1 else aces)"

text \<open>The \<^verbatim>\<open>while total > 21 and aces > 0\<close> loop of \<^verbatim>\<open>Hand.value\<close>.\<close>

function reduce_loop :: "int \<Rightarrow> int \<Rightarrow> int \<times> int" where
  "reduce_loop tot aces =
     (if tot > 21 \<and> aces > 0 then reduce_loop (tot - 10) (aces - 1) else (tot, aces))"
  by pat_completeness auto
termination
  by (relation "measure (\<lambda>(tot, aces). nat aces)") auto

declare reduce_loop.simps [simp del]

definition hand_value :: "hand \<Rightarrow> int \<times> bool" where
  "hand_value h =
     (case count_loop h 0 0 of (tot, aces) \<Rightarrow>
        (case reduce_loop tot aces of (tot', aces') \<Rightarrow> (tot', aces' > 0)))"

definition is_blackjack :: "hand \<Rightarrow> bool" where
  "is_blackjack h \<longleftrightarrow> length h = 2 \<and> fst (hand_value h) = 21"

subsection \<open>Strategy\<close>

text \<open>
  The abstract class \<^verbatim>\<open>Strategy\<close> is the pair of its two methods, as functions of their
  arguments (a strategy with internal state or one that raises is outside the model);
  \<^verbatim>\<open>BasicStrategy\<close> is the one implementation in the source.
\<close>

record strategy =
  get_bet :: "real \<Rightarrow> real"
  should_hit :: "int \<Rightarrow> bool \<Rightarrow> int \<Rightarrow> bool"

definition BasicStrategy :: strategy where
  "BasicStrategy =
     \<lparr> get_bet = (\<lambda>bankroll. min 10 bankroll),
       should_hit = (\<lambda>player_value is_soft dealer_upcard.
          if is_soft then player_value < 18 else player_value < 17) \<rparr>"

subsection \<open>Deck (the shoe)\<close>

text \<open>
  \<^verbatim>\<open>random.shuffle\<close> is the standard library's Fisher-Yates loop
  \<^verbatim>\<open>for i in reversed(range(1, len(x))): j = randbelow(i + 1); x[i], x[j] = x[j], x[i]\<close>.
  The random source is an infinite sequence of raw draws: \<open>randbelow n\<close> takes the next one
  modulo \<open>n\<close>, so every sequence of choices the library can make is the image of some source.
\<close>

type_synonym rand = "nat \<Rightarrow> nat"

definition randbelow :: "nat \<Rightarrow> rand \<Rightarrow> nat \<times> rand" where
  "randbelow n r = (r 0 mod n, (\<lambda>i. r (Suc i)))"

fun shuffle_from :: "nat \<Rightarrow> 'a list \<Rightarrow> rand \<Rightarrow> 'a list \<times> rand" where
  "shuffle_from 0 xs r = (xs, r)"
| "shuffle_from (Suc k) xs r =
     (case randbelow (Suc k + 1) r of (j, r') \<Rightarrow>
        shuffle_from k (xs[Suc k := xs ! j, j := xs ! Suc k]) r')"

definition shuffle :: "'a list \<Rightarrow> rand \<Rightarrow> 'a list \<times> rand" where
  "shuffle xs r = shuffle_from (length xs - 1) xs r"

definition RANKS :: "rank list" where
  "RANKS = [Two, Three, Four, Five, Six, Seven, Eight, Nine, Ten, Jack, Queen, King, Ace]"

record deck =
  cards :: "card list"
  num_decks :: int
  rng :: rand

text \<open>
  \<^verbatim>\<open>[Card(rank) for _ in range(self.num_decks) for rank in self.RANKS * 4]\<close>, then the shuffle.
  \<^verbatim>\<open>range\<close> of a negative number is empty, as \<open>nat\<close> of it is 0.
\<close>

definition fresh_cards :: "int \<Rightarrow> card list" where
  "fresh_cards n =
     concat (map (\<lambda>_. map Card (concat (replicate 4 RANKS))) [0 ..< nat n])"

definition Deck_reset :: "deck \<Rightarrow> deck" where
  "Deck_reset d =
     (case shuffle (fresh_cards (num_decks d)) (rng d) of
        (cs, r') \<Rightarrow> d\<lparr>cards := cs, rng := r'\<rparr>)"

definition Deck_init :: "int \<Rightarrow> rand \<Rightarrow> deck" where
  "Deck_init n r = Deck_reset \<lparr>cards = [], num_decks = n, rng = r\<rparr>"

datatype error =
  ValueError real \<comment> \<open>\<^verbatim>\<open>ValueError(f"Invalid bet: {bet}")\<close>, with the bet\<close>
| IndexError \<comment> \<open>\<^verbatim>\<open>pop\<close> from an empty list, index 0 of an empty list\<close>
| ZeroDivisionError

text \<open>
  \<^verbatim>\<open>Deck.draw\<close>: \<^verbatim>\<open>list.pop()\<close> removes and returns the last element and raises
  \<^verbatim>\<open>IndexError\<close> on an empty list (the reset has then already happened).
\<close>

definition Deck_draw :: "deck \<Rightarrow> (error + card) \<times> deck" where
  "Deck_draw d =
     (let d1 = (if int (length (cards d)) < 10 then Deck_reset d else d) in
      case cards d1 of
        [] \<Rightarrow> (Inl IndexError, d1)
      | _ # _ \<Rightarrow> (Inr (last (cards d1)), d1\<lparr>cards := butlast (cards d1)\<rparr>))"

subsection \<open>Game: one round\<close>

record game =
  deck :: deck
  player_hand :: hand
  dealer_hand :: hand

definition Game_init :: "deck \<Rightarrow> game" where
  "Game_init d = \<lparr>deck = d, player_hand = [], dealer_hand = []\<rparr>"

text \<open>
  \<^verbatim>\<open>self.player_hand.add_card(self.deck.draw())\<close> and the same for the dealer: the statement
  that \<^verbatim>\<open>deal\<close>, \<^verbatim>\<open>player_plays\<close> and \<^verbatim>\<open>dealer_plays\<close> repeat.
\<close>

definition player_draws :: "game \<Rightarrow> (error + unit) \<times> game" where
  "player_draws g =
     (case Deck_draw (deck g) of
        (Inl e, d') \<Rightarrow> (Inl e, g\<lparr>deck := d'\<rparr>)
      | (Inr c, d') \<Rightarrow> (Inr (), g\<lparr>deck := d', player_hand := add_card (player_hand g) c\<rparr>))"

definition dealer_draws :: "game \<Rightarrow> (error + unit) \<times> game" where
  "dealer_draws g =
     (case Deck_draw (deck g) of
        (Inl e, d') \<Rightarrow> (Inl e, g\<lparr>deck := d'\<rparr>)
      | (Inr c, d') \<Rightarrow> (Inr (), g\<lparr>deck := d', dealer_hand := add_card (dealer_hand g) c\<rparr>))"

text \<open>Sequencing of two statements of which the first may raise.\<close>

definition and_then ::
  "(game \<Rightarrow> (error + unit) \<times> game) \<Rightarrow> (game \<Rightarrow> (error + 'a) \<times> game) \<Rightarrow> game \<Rightarrow> (error + 'a) \<times> game"
where
  "and_then f k g = (case f g of (Inl e, g') \<Rightarrow> (Inl e, g') | (Inr _, g') \<Rightarrow> k g')"

definition deal :: "game \<Rightarrow> (error + unit) \<times> game" where
  "deal = and_then player_draws (and_then dealer_draws (and_then player_draws dealer_draws))"

subsection \<open>Hand valuation in closed form\<close>

text \<open>
  The quantities the valuation is described with: the total with every Ace as 11, the
  number of Aces, the total with every Ace as 1, and the number of Aces the reduction loop
  turns from 11 into 1 (the least \<open>k\<close> with \<open>tot - 10 * k \<le> 21\<close>, capped by the number of Aces).
\<close>

definition base_total :: "hand \<Rightarrow> int" where
  "base_total h = sum_list (map card_value h)"

definition num_aces :: "hand \<Rightarrow> int" where
  "num_aces h = int (length (filter (\<lambda>c. card_rank c = Ace) h))"

definition hard_total :: "hand \<Rightarrow> int" where
  "hard_total h = base_total h - 10 * num_aces h"

definition reduced_aces :: "int \<Rightarrow> int \<Rightarrow> int" where
  "reduced_aces tot aces = min aces (max 0 ((tot - 12) div 10))"

lemma count_loop_eq:
  "count_loop cs tot aces = (tot + base_total cs, aces + num_aces cs)"
  by (induction cs arbitrary: tot aces) (simp_all add: base_total_def num_aces_def)

lemma reduce_loop_eq:
  "0 \<le> aces \<Longrightarrow>
   reduce_loop tot aces = (tot - 10 * reduced_aces tot aces, aces - reduced_aces tot aces)"
proof (induction tot aces rule: reduce_loop.induct)
  case (1 tot aces)
  show ?case
  proof (cases "tot > 21 \<and> aces > 0")
    case True
    then have ih: "reduce_loop (tot - 10) (aces - 1) =
        (tot - 10 - 10 * reduced_aces (tot - 10) (aces - 1),
         aces - 1 - reduced_aces (tot - 10) (aces - 1))"
      using "1.IH" by simp
    have "(tot - 12) div 10 = (tot - 10 - 12) div 10 + 1" by simp
    moreover have "0 \<le> (tot - 10 - 12) div 10"
      using True by (simp add: pos_imp_zdiv_nonneg_iff)
    ultimately have "reduced_aces tot aces = reduced_aces (tot - 10) (aces - 1) + 1"
      using True unfolding reduced_aces_def by (simp add: min_def max_def)
    then show ?thesis using True ih by (subst reduce_loop.simps) simp
  next
    case False
    with "1.prems" have "reduced_aces tot aces = 0"
      unfolding reduced_aces_def by (auto simp: min_def max_def)
    then show ?thesis using False by (subst reduce_loop.simps) auto
  qed
qed

lemma num_aces_nonneg: "0 \<le> num_aces h"
  by (simp add: num_aces_def)

lemma hand_value_eq:
  "hand_value h =
     (base_total h - 10 * reduced_aces (base_total h) (num_aces h),
      reduced_aces (base_total h) (num_aces h) < num_aces h)"
  by (simp add: hand_value_def count_loop_eq reduce_loop_eq num_aces_nonneg)

lemma reduced_aces_bounds: "0 \<le> a \<Longrightarrow> 0 \<le> reduced_aces t a \<and> reduced_aces t a \<le> a"
  by (simp add: reduced_aces_def)

lemma reduced_aces_while: "0 \<le> j \<Longrightarrow> j < reduced_aces t a \<Longrightarrow> t - 10 * j > 21"
  unfolding reduced_aces_def by (auto simp: min_def max_def split: if_splits)

lemma reduced_aces_stop: "reduced_aces t a < a \<Longrightarrow> t - 10 * reduced_aces t a \<le> 21"
  unfolding reduced_aces_def by (auto simp: min_def max_def split: if_splits)

subsection \<open>The two drawing loops\<close>

text \<open>
  Both loops of the source have no iteration cap. They terminate because the total with
  every Ace as 1 rises with each card and never exceeds the hand's value, which the loop
  conditions bound.
\<close>

lemma hard_total_le_value: "hard_total h \<le> fst (hand_value h)"
  using reduced_aces_bounds [OF num_aces_nonneg, of "base_total h" h]
  by (simp add: hand_value_eq hard_total_def)

lemma card_value_pos: "2 \<le> card_value c"
  by (cases "card_rank c") (simp_all add: card_value_def)

lemma card_value_Ace: "card_rank c = Ace \<Longrightarrow> card_value c = 11"
  by (simp add: card_value_def)

lemma hard_total_add_card: "hard_total h < hard_total (add_card h c)"
proof (cases "card_rank c = Ace")
  case True
  then show ?thesis
    by (simp add: hard_total_def base_total_def num_aces_def add_card_def card_value_Ace)
next
  case False
  then show ?thesis
    using card_value_pos [of c]
    by (simp add: hard_total_def base_total_def num_aces_def add_card_def)
qed

lemma player_draws_hand:
  "player_draws g = (Inr u, g') \<Longrightarrow>
   \<exists>c. player_hand g' = add_card (player_hand g) c \<and> dealer_hand g' = dealer_hand g"
  by (auto simp: player_draws_def split: prod.splits sum.splits)

lemma dealer_draws_hand:
  "dealer_draws g = (Inr u, g') \<Longrightarrow>
   \<exists>c. dealer_hand g' = add_card (dealer_hand g) c \<and> player_hand g' = player_hand g"
  by (auto simp: dealer_draws_def split: prod.splits sum.splits)

lemma player_plays_decreases:
  assumes "(Inr u, g') = player_draws g" and "\<not> 21 < fst (hand_value (player_hand g'))"
  shows "hard_total (player_hand g) < 22 \<and> hard_total (player_hand g) < hard_total (player_hand g')"
proof -
  obtain c where c: "player_hand g' = add_card (player_hand g) c"
    using assms(1) player_draws_hand [of g u g'] by auto
  have "hard_total (player_hand g') \<le> 21"
    using hard_total_le_value [of "player_hand g'"] assms(2) by simp
  moreover have "hard_total (player_hand g) < hard_total (player_hand g')"
    unfolding c by (rule hard_total_add_card)
  ultimately show ?thesis by simp
qed

lemma dealer_plays_decreases:
  assumes "(Inr u, g') = dealer_draws g" and "fst (hand_value (dealer_hand g)) < 17"
  shows "hard_total (dealer_hand g) < 17 \<and> hard_total (dealer_hand g) < hard_total (dealer_hand g')"
proof -
  obtain c where c: "dealer_hand g' = add_card (dealer_hand g) c"
    using assms(1) dealer_draws_hand [of g u g'] by auto
  have "hard_total (dealer_hand g) < 17"
    using hard_total_le_value [of "dealer_hand g"] assms(2) by simp
  moreover have "hard_total (dealer_hand g) < hard_total (dealer_hand g')"
    unfolding c by (rule hard_total_add_card)
  ultimately show ?thesis by simp
qed

text \<open>
  \<^verbatim>\<open>Game.player_plays\<close>: \<^verbatim>\<open>self.dealer_hand.cards[0]\<close> raises \<^verbatim>\<open>IndexError\<close> on an empty
  dealer hand.
\<close>

function player_plays :: "strategy \<Rightarrow> game \<Rightarrow> (error + bool) \<times> game" where
  "player_plays strat g =
     (case hand_value (player_hand g) of (player_value, is_soft) \<Rightarrow>
        (case dealer_hand g of
           [] \<Rightarrow> (Inl IndexError, g)
         | c0 # _ \<Rightarrow>
             (let dealer_upcard = card_value c0 in
              if should_hit strat player_value is_soft dealer_upcard then
                (case player_draws g of
                   (Inl e, g') \<Rightarrow> (Inl e, g')
                 | (Inr _, g') \<Rightarrow>
                     if fst (hand_value (player_hand g')) > 21 then (Inr False, g')
                     else player_plays strat g')
              else (Inr True, g))))"
  by pat_completeness auto
termination
  apply (relation "measure (\<lambda>(strat, g). nat (22 - hard_total (player_hand g)))")
   apply simp
  apply (auto dest: player_plays_decreases)
  done

declare player_plays.simps [simp del]

text \<open>\<^verbatim>\<open>Game.dealer_plays\<close>.\<close>

function dealer_plays :: "game \<Rightarrow> (error + unit) \<times> game" where
  "dealer_plays g =
     (if fst (hand_value (dealer_hand g)) < 17 then
        (case dealer_draws g of
           (Inl e, g') \<Rightarrow> (Inl e, g')
         | (Inr _, g') \<Rightarrow> dealer_plays g')
      else (Inr (), g))"
  by pat_completeness auto
termination
  apply (relation "measure (\<lambda>g. nat (17 - hard_total (dealer_hand g)))")
   apply simp
  apply (auto dest: dealer_plays_decreases)
  done

declare dealer_plays.simps [simp del]

subsection \<open>Floating point\<close>

text \<open>
  The number of bits of a positive integer (\<^verbatim>\<open>int.bit_length\<close>), and rounding to an integer
  with ties to the even one.
\<close>

function bit_length :: "int \<Rightarrow> int" where
  "bit_length n = (if n \<le> 0 then 0 else 1 + bit_length (n div 2))"
  by pat_completeness auto
termination
  by (relation "measure nat") auto

declare bit_length.simps [simp del]

definition round_even :: "real \<Rightarrow> int" where
  "round_even x =
     (let f = \<lfloor>x\<rfloor>; d = x - of_int f in
      if d < 1 / 2 then f
      else if d > 1 / 2 then f + 1
      else if even f then f else f + 1)"

text \<open>
  Binary64 has 53 significant bits. For \<open>2 ^ e \<le> \<bar>x\<bar> < 2 ^ (e + 1)\<close> the doubles around \<open>x\<close>
  are the multiples of \<open>2 ^ (e - 52)\<close>; below \<open>2 ^ (- 1022)\<close> (the subnormal range) they are the
  multiples of \<open>2 ^ (- 1074)\<close>. \<open>double_exponent\<close> is that \<open>e\<close>, not below \<open>- 1022\<close>: for
  \<open>\<bar>x\<bar> \<ge> 1\<close> it is the bit length of the integer part less 1, for \<open>\<bar>x\<bar> < 1\<close> it is minus the
  least \<open>k\<close> with \<open>2 ^ k \<ge> 1 / \<bar>x\<bar>\<close>. \<open>round_double\<close> rounds to the nearest multiple of the
  spacing, a tie to the multiple with an even significand.
\<close>

definition double_exponent :: "real \<Rightarrow> int" where
  "double_exponent x =
     max (- 1022)
       (if \<bar>x\<bar> \<ge> 1 then bit_length \<lfloor>\<bar>x\<bar>\<rfloor> - 1
        else - bit_length (\<lceil>1 / \<bar>x\<bar>\<rceil> - 1))"

definition double_ulp :: "real \<Rightarrow> real" where
  "double_ulp x =
     (let e = double_exponent x in
      if e \<ge> 52 then 2 ^ nat (e - 52) else 1 / 2 ^ nat (52 - e))"

definition round_double :: "real \<Rightarrow> real" where
  "round_double x =
     (if x = 0 then 0 else of_int (round_even (x / double_ulp x)) * double_ulp x)"

text \<open>The operations \<^verbatim>\<open>+\<close>, \<^verbatim>\<open>-\<close> and \<^verbatim>\<open>*\<close> of Python on two floats.\<close>

definition float_add :: "real \<Rightarrow> real \<Rightarrow> real" where
  "float_add a b = round_double (a + b)"

definition float_sub :: "real \<Rightarrow> real \<Rightarrow> real" where
  "float_sub a b = round_double (a - b)"

definition float_mul :: "real \<Rightarrow> real \<Rightarrow> real" where
  "float_mul a b = round_double (a * b)"

subsection \<open>Settlement, the round and the simulation\<close>

text \<open>\<^verbatim>\<open>Game.get_result\<close>, rule by rule in the order of the source.\<close>

definition get_result :: "game \<Rightarrow> real \<Rightarrow> real" where
  "get_result g bet =
     (let player_value = fst (hand_value (player_hand g));
          dealer_value = fst (hand_value (dealer_hand g)) in
      if player_value > 21 then - bet
      else if is_blackjack (player_hand g) \<and> \<not> is_blackjack (dealer_hand g) then float_mul bet 1.5
      else if is_blackjack (dealer_hand g) \<and> \<not> is_blackjack (player_hand g) then - bet
      else if is_blackjack (player_hand g) \<and> is_blackjack (dealer_hand g) then 0
      else if dealer_value > 21 then bet
      else if player_value > dealer_value then bet
      else if player_value < dealer_value then - bet
      else 0)"

text \<open>
  The body of \<^verbatim>\<open>play_hand\<close> between the bet check and the settlement (lines 148 to 154):
  a new game on the shoe, the deal, the player's turn, and the dealer's turn when the player
  is still active. It returns the flag and the game, which \<^verbatim>\<open>play_hand\<close> keeps in a local
  variable, so that statements about the hands of a round can be made.
\<close>

definition play_round :: "strategy \<Rightarrow> deck \<Rightarrow> (error + bool) \<times> game" where
  "play_round strat d =
     (case deal (Game_init d) of
        (Inl e, g) \<Rightarrow> (Inl e, g)
      | (Inr _, g) \<Rightarrow>
          (case player_plays strat g of
             (Inl e, g') \<Rightarrow> (Inl e, g')
           | (Inr player_still_active, g') \<Rightarrow>
               if player_still_active then
                 (case dealer_plays g' of
                    (Inl e, g'') \<Rightarrow> (Inl e, g'')
                  | (Inr _, g'') \<Rightarrow> (Inr player_still_active, g''))
               else (Inr player_still_active, g')))"

text \<open>\<^verbatim>\<open>play_hand\<close>: the result, and the shoe as the call leaves it.\<close>

definition play_hand :: "deck \<Rightarrow> strategy \<Rightarrow> real \<Rightarrow> (error + real \<times> real) \<times> deck" where
  "play_hand d strat bankroll =
     (let bet = get_bet strat bankroll in
      if bet \<le> 0 \<or> bet > bankroll then (Inl (ValueError bet), d)
      else
        (case play_round strat d of
           (Inl e, g) \<Rightarrow> (Inl e, deck g)
         | (Inr _, g) \<Rightarrow>
             (let payoff = get_result g bet;
                  new_bankroll = float_add (float_sub bankroll bet) payoff in
              (Inr (new_bankroll, payoff), deck g))))"

text \<open>
  The local variables of \<^verbatim>\<open>simulate\<close> that its loop updates, and the loop
  \<^verbatim>\<open>for _ in range(num_hands)\<close> with its \<^verbatim>\<open>break\<close>.
\<close>

record sim_state =
  sim_deck :: deck
  bankroll :: real
  wins :: int
  losses :: int
  pushes :: int

fun sim_loop :: "strategy \<Rightarrow> nat \<Rightarrow> sim_state \<Rightarrow> error + sim_state" where
  "sim_loop strat 0 st = Inr st"
| "sim_loop strat (Suc n) st =
     (if bankroll st \<le> 0 then Inr st
      else
        (case play_hand (sim_deck st) strat (bankroll st) of
           (Inl e, d') \<Rightarrow> Inl e
         | (Inr (new_bankroll, payoff), d') \<Rightarrow>
             sim_loop strat n
               (if payoff > 0 then st\<lparr>sim_deck := d', bankroll := new_bankroll, wins := wins st + 1\<rparr>
                else if payoff < 0 then st\<lparr>sim_deck := d', bankroll := new_bankroll, losses := losses st + 1\<rparr>
                else st\<lparr>sim_deck := d', bankroll := new_bankroll, pushes := pushes st + 1\<rparr>)))"

text \<open>
  The dictionary \<^verbatim>\<open>simulate\<close> returns, as a record (the keys \<^verbatim>\<open>wins\<close>, \<^verbatim>\<open>losses\<close> and
  \<^verbatim>\<open>pushes\<close> carry the prefix \<open>sum_\<close>). Python's \<^verbatim>\<open>/\<close> raises \<^verbatim>\<open>ZeroDivisionError\<close> on a
  zero divisor, for \<^verbatim>\<open>int\<close> and \<^verbatim>\<open>float\<close> alike, and otherwise returns the quotient rounded
  to a double (also for two \<^verbatim>\<open>int\<close>, whose quotient it rounds once); the entries are
  evaluated in the order written, \<^verbatim>\<open>roi\<close> before \<^verbatim>\<open>win_rate\<close>.
\<close>

record summary =
  final_bankroll :: real
  profit :: real
  roi :: real
  sum_wins :: int
  sum_losses :: int
  sum_pushes :: int
  win_rate :: real

definition py_div :: "real \<Rightarrow> real \<Rightarrow> error + real" where
  "py_div a b = (if b = 0 then Inl ZeroDivisionError else Inr (round_double (a / b)))"

definition simulate :: "strategy \<Rightarrow> int \<Rightarrow> int \<Rightarrow> real \<Rightarrow> rand \<Rightarrow> error + summary" where
  "simulate strat num_hands n_decks starting_bankroll r =
     (let st0 = \<lparr>sim_deck = Deck_init n_decks r, bankroll = starting_bankroll,
                 wins = 0, losses = 0, pushes = 0\<rparr> in
      case sim_loop strat (nat num_hands) st0 of
        Inl e \<Rightarrow> Inl e
      | Inr st \<Rightarrow>
          (case py_div (float_sub (bankroll st) starting_bankroll) starting_bankroll of
             Inl e \<Rightarrow> Inl e
           | Inr q \<Rightarrow>
               (case py_div (of_int (wins st)) (of_int num_hands) of
                  Inl e \<Rightarrow> Inl e
                | Inr w \<Rightarrow>
                    Inr \<lparr>final_bankroll = bankroll st,
                         profit = float_sub (bankroll st) starting_bankroll,
                         roi = float_mul q 100,
                         sum_wins = wins st,
                         sum_losses = losses st,
                         sum_pushes = pushes st,
                         win_rate = float_mul w 100\<rparr>)))"

section \<open>Definitions for the statements\<close>

text \<open>
  The settlement as the specification words it: a list of eight rules, each a condition
  with a payoff, read in order; the first rule whose condition holds gives the payoff.
  \<open>first_match\<close> returns \<open>None\<close> when no rule applies.
\<close>

fun first_match :: "(bool \<times> 'a) list \<Rightarrow> 'a option" where
  "first_match [] = None"
| "first_match ((cond, v) # rules) = (if cond then Some v else first_match rules)"

definition settlement_rules :: "game \<Rightarrow> real \<Rightarrow> (bool \<times> real) list" where
  "settlement_rules g bet =
     (let p = fst (hand_value (player_hand g));
          d = fst (hand_value (dealer_hand g));
          p_bj = is_blackjack (player_hand g);
          d_bj = is_blackjack (dealer_hand g) in
      [(p > 21, - bet),
       (p_bj \<and> \<not> d_bj, float_mul bet 1.5),
       (d_bj \<and> \<not> p_bj, - bet),
       (p_bj \<and> d_bj, 0),
       (d > 21, bet),
       (p > d, bet),
       (p < d, - bet),
       (p = d, 0)])"

text \<open>The rounds a state of the simulation loop has counted.\<close>

definition rounds :: "sim_state \<Rightarrow> int" where
  "rounds st = wins st + losses st + pushes st"

subsection \<open>Concrete inputs\<close>

text \<open>A game with the given hands, for settlements.\<close>

definition game_of :: "rank list \<Rightarrow> rank list \<Rightarrow> game" where
  "game_of ps ds = \<lparr>deck = \<lparr>cards = [], num_decks = 1, rng = (\<lambda>_. 0)\<rparr>,
     player_hand = map Card ps, dealer_hand = map Card ds\<rparr>"

text \<open>A shoe of two decks with 12 cards left (no reset), and one with 3 cards left (reset).\<close>

definition small_shoe :: deck where
  "small_shoe = \<lparr>cards = map Card [Two, Three, Four, Five, Six, Seven, Eight, Nine, Ten, Jack, King, Five],
     num_decks = 2, rng = (\<lambda>_. 0)\<rparr>"

definition low_shoe :: deck where
  "low_shoe = \<lparr>cards = map Card [Two, Three, Four], num_decks = 2, rng = (\<lambda>_. 0)\<rparr>"

text \<open>
  A shoe of 17 cards, drawn from the end: the player gets 10 and 6, the dealer 5 and 6, and
  the next card is a King. On the second shoe the player gets an Ace and a King, the dealer
  10 and 9.
\<close>

definition round_shoe :: deck where
  "round_shoe = \<lparr>cards = map Card [Two, Three, Four, Five, Six, Seven, Eight, Nine, Ten, Jack,
       Queen, Two, King, Six, Six, Five, Ten],
     num_decks = 1, rng = (\<lambda>_. 0)\<rparr>"

definition blackjack_shoe :: deck where
  "blackjack_shoe = \<lparr>cards = map Card [Two, Three, Four, Five, Six, Seven, Eight, Nine, Ten, Jack,
       Queen, Two, Nine, King, Ten, Ace],
     num_decks = 1, rng = (\<lambda>_. 0)\<rparr>"

text \<open>
  Two more shoes of 16 cards: on the first the player gets 10 and 9 and the dealer 10 and
  7, on the second both get 10 and 9.
\<close>

definition win_shoe :: deck where
  "win_shoe = \<lparr>cards = map Card [Two, Three, Four, Five, Six, Seven, Eight, Nine, Ten, Jack,
       Queen, Two, Seven, Nine, Ten, Ten],
     num_decks = 1, rng = (\<lambda>_. 0)\<rparr>"

definition push_shoe :: deck where
  "push_shoe = \<lparr>cards = map Card [Two, Three, Four, Five, Six, Seven, Eight, Nine, Ten, Jack,
       Queen, Two, Nine, Nine, Ten, Ten],
     num_decks = 1, rng = (\<lambda>_. 0)\<rparr>"

text \<open>A strategy that bets 5 more than the bankroll and never hits.\<close>

definition bet_all_plus :: strategy where
  "bet_all_plus = \<lparr>get_bet = (\<lambda>bankroll. bankroll + 5), should_hit = (\<lambda>_ _ _. False)\<rparr>"

section \<open>Lemmas\<close>

subsection \<open>Two-card hands\<close>

text \<open>A hand of two cards never exceeds 21: two Aces are 12.\<close>

lemma two_card_value:
  "fst (hand_value [c1, c2]) =
     (if card_rank c1 = Ace \<and> card_rank c2 = Ace then 12 else card_value c1 + card_value c2)"
proof -
  have "2 \<le> card_value c \<and> card_value c \<le> 11 \<and> (card_value c = 11 \<longleftrightarrow> card_rank c = Ace)" for c
    by (cases "card_rank c") (simp_all add: card_value_def)
  from this [of c1] this [of c2] show ?thesis
    by (auto simp: hand_value_eq base_total_def num_aces_def reduced_aces_def min_def max_def)
qed

lemma two_card_value_le: "length h = 2 \<Longrightarrow> fst (hand_value h) \<le> 21"
proof -
  assume "length h = 2"
  then obtain c1 c2 where h: "h = [c1, c2]"
    by (auto simp: length_Suc_conv numeral_2_eq_2)
  have "card_value c \<le> 11 \<and> (card_value c = 11 \<longrightarrow> card_rank c = Ace)" for c
    by (cases "card_rank c") (simp_all add: card_value_def)
  from this [of c1] this [of c2] show ?thesis
    unfolding h two_card_value by auto
qed

subsection \<open>The shoe\<close>

text \<open>The shuffle keeps the number of cards; a reset leaves 52 cards for each deck.\<close>

lemma length_shuffle_from: "length (fst (shuffle_from k xs r)) = length xs"
  by (induction k arbitrary: xs r) (simp_all add: randbelow_def)

lemma length_shuffle: "length (fst (shuffle xs r)) = length xs"
  by (simp add: shuffle_def length_shuffle_from)

lemma length_fresh_cards: "length (fresh_cards n) = 52 * nat n"
proof -
  have "length (concat (map (\<lambda>_. ys) [0 ..< k])) = k * length ys" for k and ys :: "card list"
    by (induction k) simp_all
  moreover have "length (concat (replicate 4 RANKS)) = 52"
    by code_simp
  ultimately show ?thesis
    by (simp add: fresh_cards_def)
qed

lemma Deck_reset_cards: "length (cards (Deck_reset d)) = 52 * nat (num_decks d)"
  using length_shuffle [of "fresh_cards (num_decks d)" "rng d"]
  by (cases "shuffle (fresh_cards (num_decks d)) (rng d)")
     (simp add: Deck_reset_def length_fresh_cards)

lemma Deck_reset_num_decks: "num_decks (Deck_reset d) = num_decks d"
  by (cases "shuffle (fresh_cards (num_decks d)) (rng d)") (simp add: Deck_reset_def)

lemma Deck_draw_pop:
  "cards d1 \<noteq> [] \<Longrightarrow>
   (case cards d1 of [] \<Rightarrow> (Inl IndexError, d1)
    | _ # _ \<Rightarrow> (Inr (last (cards d1)), d1\<lparr>cards := butlast (cards d1)\<rparr>))
   = (Inr (last (cards d1)), d1\<lparr>cards := butlast (cards d1)\<rparr>)"
  by (cases "cards d1") simp_all

lemma Deck_draw_error: "Deck_draw d = (Inl e, d') \<Longrightarrow> e = IndexError"
  by (auto simp: Deck_draw_def Let_def split: list.splits if_splits)

subsection \<open>Properties of a round\<close>

text \<open>
  Induction along the two loops (on the measures of their termination proofs), and the
  ways each loop, the deal and the round can leave.
\<close>

lemma player_turn_induct:
  assumes step: "\<And>g. (\<And>u g'. player_draws g = (Inr u, g') \<Longrightarrow>
      \<not> 21 < fst (hand_value (player_hand g')) \<Longrightarrow> P g') \<Longrightarrow> P g"
  shows "P g"
proof (induction "nat (22 - hard_total (player_hand g))" arbitrary: g rule: less_induct)
  case less
  show ?case
  proof (rule step)
    fix u g'
    assume a: "player_draws g = (Inr u, g')" and b: "\<not> 21 < fst (hand_value (player_hand g'))"
    have "nat (22 - hard_total (player_hand g')) < nat (22 - hard_total (player_hand g))"
      using player_plays_decreases [OF a [symmetric] b] by simp
    then show "P g'" by (rule less)
  qed
qed

lemma dealer_turn_induct:
  assumes step: "\<And>g. (\<And>u g'. fst (hand_value (dealer_hand g)) < 17 \<Longrightarrow>
      dealer_draws g = (Inr u, g') \<Longrightarrow> P g') \<Longrightarrow> P g"
  shows "P g"
proof (induction "nat (17 - hard_total (dealer_hand g))" arbitrary: g rule: less_induct)
  case less
  show ?case
  proof (rule step)
    fix u g'
    assume a: "fst (hand_value (dealer_hand g)) < 17" and b: "dealer_draws g = (Inr u, g')"
    have "nat (17 - hard_total (dealer_hand g')) < nat (17 - hard_total (dealer_hand g))"
      using dealer_plays_decreases [OF b [symmetric] a] by simp
    then show "P g'" by (rule less)
  qed
qed

lemma player_plays_cases:
  assumes "player_plays strat g = (r, gf)"
  obtains
    (no_upcard) "dealer_hand g = []" "r = Inl IndexError" "gf = g"
  | (stand) "dealer_hand g \<noteq> []" "r = Inr True" "gf = g"
  | (draw_fails) e where "dealer_hand g \<noteq> []" "player_draws g = (Inl e, gf)" "r = Inl e"
  | (bust) u where "dealer_hand g \<noteq> []" "player_draws g = (Inr u, gf)"
      "21 < fst (hand_value (player_hand gf))" "r = Inr False"
  | (continue) u g' where "dealer_hand g \<noteq> []" "player_draws g = (Inr u, g')"
      "\<not> 21 < fst (hand_value (player_hand g'))" "player_plays strat g' = (r, gf)"
  using assms
  by (subst (asm) player_plays.simps)
     (auto simp: Let_def split: prod.splits list.splits sum.splits if_splits)

lemma dealer_plays_cases:
  assumes "dealer_plays g = (r, gf)"
  obtains
    (stand) "\<not> fst (hand_value (dealer_hand g)) < 17" "r = Inr ()" "gf = g"
  | (draw_fails) e where "fst (hand_value (dealer_hand g)) < 17" "dealer_draws g = (Inl e, gf)"
      "r = Inl e"
  | (continue) u g' where "fst (hand_value (dealer_hand g)) < 17" "dealer_draws g = (Inr u, g')"
      "dealer_plays g' = (r, gf)"
  using assms
  by (subst (asm) dealer_plays.simps)
     (auto split: prod.splits sum.splits if_splits)

lemma player_draws_error:
  "player_draws g = (Inl e, g') \<Longrightarrow>
   e = IndexError \<and> player_hand g' = player_hand g \<and> dealer_hand g' = dealer_hand g"
  by (auto simp: player_draws_def split: prod.splits sum.splits dest: Deck_draw_error)

lemma dealer_draws_error:
  "dealer_draws g = (Inl e, g') \<Longrightarrow>
   e = IndexError \<and> player_hand g' = player_hand g \<and> dealer_hand g' = dealer_hand g"
  by (auto simp: dealer_draws_def split: prod.splits sum.splits dest: Deck_draw_error)

lemma player_plays_props:
  "player_plays strat g = (r, gf) \<Longrightarrow>
     dealer_hand gf = dealer_hand g
     \<and> (r = Inr False \<longrightarrow> 21 < fst (hand_value (player_hand gf)))
     \<and> (r = Inr True \<longrightarrow> fst (hand_value (player_hand g)) \<le> 21 \<longrightarrow>
          fst (hand_value (player_hand gf)) \<le> 21)
     \<and> (\<forall>e. r = Inl e \<longrightarrow> e = IndexError)"
proof (induction g rule: player_turn_induct)
  case (1 g)
  from "1.prems" show ?case
  proof (cases rule: player_plays_cases)
    case no_upcard
    then show ?thesis by simp
  next
    case stand
    then show ?thesis by simp
  next
    case (draw_fails e)
    then show ?thesis using player_draws_error [of g e gf] by simp
  next
    case (bust u)
    then show ?thesis using player_draws_hand [of g u gf] by auto
  next
    case (continue u g')
    from "1.IH" [OF continue(2,3,4)] player_draws_hand [OF continue(2)] continue(3)
    show ?thesis by auto
  qed
qed

lemma dealer_plays_props:
  "dealer_plays g = (r, gf) \<Longrightarrow>
     player_hand gf = player_hand g \<and> (\<forall>e. r = Inl e \<longrightarrow> e = IndexError)"
proof (induction g rule: dealer_turn_induct)
  case (1 g)
  from "1.prems" show ?case
  proof (cases rule: dealer_plays_cases)
    case stand
    then show ?thesis by simp
  next
    case (draw_fails e)
    then show ?thesis using dealer_draws_error [of g e gf] by simp
  next
    case (continue u g')
    from "1.IH" [OF continue(1,2,3)] dealer_draws_hand [OF continue(2)]
    show ?thesis by auto
  qed
qed

lemma and_then_Inr:
  "and_then f k g = (Inr v, g') \<longleftrightarrow> (\<exists>u g1. f g = (Inr u, g1) \<and> k g1 = (Inr v, g'))"
  by (auto simp: and_then_def split: prod.splits sum.splits)

lemma and_then_Inl:
  "and_then f k g = (Inl e, g') \<longleftrightarrow>
     f g = (Inl e, g') \<or> (\<exists>u g1. f g = (Inr u, g1) \<and> k g1 = (Inl e, g'))"
  by (auto simp: and_then_def split: prod.splits sum.splits)

lemma deal_hands:
  assumes "deal g = (Inr u, g')"
  shows "\<exists>c1 c2 c3 c4. player_hand g' = player_hand g @ [c1, c3]
     \<and> dealer_hand g' = dealer_hand g @ [c2, c4]"
proof -
  from assms obtain u1 g1 u2 g2 u3 g3 where
    s: "player_draws g = (Inr u1, g1)" "dealer_draws g1 = (Inr u2, g2)"
       "player_draws g2 = (Inr u3, g3)" "dealer_draws g3 = (Inr u, g')"
    unfolding deal_def and_then_Inr by blast
  from player_draws_hand [OF s(1)] dealer_draws_hand [OF s(2)]
    player_draws_hand [OF s(3)] dealer_draws_hand [OF s(4)]
  show ?thesis by (auto simp: add_card_def)
qed

lemma deal_error: "deal g = (Inl e, g') \<Longrightarrow> e = IndexError"
  unfolding deal_def and_then_Inl
  by (auto dest: player_draws_error dealer_draws_error)

lemma play_round_cases:
  assumes "play_round strat d = (r, g)"
  obtains
    (deal_fails) e where "deal (Game_init d) = (Inl e, g)" "r = Inl e"
  | (player_fails) u g0 e where "deal (Game_init d) = (Inr u, g0)"
      "player_plays strat g0 = (Inl e, g)" "r = Inl e"
  | (player_bust) u g0 where "deal (Game_init d) = (Inr u, g0)"
      "player_plays strat g0 = (Inr False, g)" "r = Inr False"
  | (dealer_fails) u g0 g1 e where "deal (Game_init d) = (Inr u, g0)"
      "player_plays strat g0 = (Inr True, g1)" "dealer_plays g1 = (Inl e, g)" "r = Inl e"
  | (dealer_played) u g0 g1 where "deal (Game_init d) = (Inr u, g0)"
      "player_plays strat g0 = (Inr True, g1)" "dealer_plays g1 = (Inr (), g)" "r = Inr True"
  using assms unfolding play_round_def
  by (auto split: prod.splits sum.splits if_splits)

lemma play_round_error: "play_round strat d = (Inl e, g) \<Longrightarrow> e = IndexError"
  by (erule play_round_cases)
     (auto dest: deal_error player_plays_props dealer_plays_props)

subsection \<open>The simulation loop\<close>

text \<open>
  A bankrupt state ends the loop at once, a loop of \<open>k + m\<close> iterations is a loop of \<open>k\<close>
  followed by one of \<open>m\<close>, and \<open>k\<close> iterations count at most \<open>k\<close> rounds.
\<close>

lemma sim_loop_bankrupt: "bankroll st \<le> 0 \<Longrightarrow> sim_loop strat n st = Inr st"
  by (cases n) simp_all

lemma sim_loop_Suc_cases:
  assumes "sim_loop strat (Suc n) st = Inr st'"
  obtains
    (bankrupt) "bankroll st \<le> 0" "st' = st"
  | (played) st1 where "\<not> bankroll st \<le> 0" "sim_loop strat n st1 = Inr st'"
      "sim_loop strat 1 st = Inr st1" "rounds st1 = rounds st + 1"
  using assms
  by (auto simp: rounds_def split: prod.splits sum.splits if_splits)

lemma sim_loop_rounds:
  "sim_loop strat k st = Inr st' \<Longrightarrow> rounds st \<le> rounds st' \<and> rounds st' \<le> rounds st + int k"
proof (induction k arbitrary: st)
  case 0
  then show ?case by simp
next
  case (Suc k)
  from Suc.prems show ?case
  proof (cases rule: sim_loop_Suc_cases)
    case bankrupt
    then show ?thesis by simp
  next
    case (played st1)
    from Suc.IH [OF played(2)] played(4) show ?thesis by simp
  qed
qed

lemma sim_loop_add:
  "sim_loop strat (k + m) st =
     (case sim_loop strat k st of Inl e \<Rightarrow> Inl e | Inr st' \<Rightarrow> sim_loop strat m st')"
proof (induction k arbitrary: st)
  case 0
  then show ?case by simp
next
  case (Suc k)
  show ?case
  proof (cases "bankroll st \<le> 0")
    case True
    then show ?thesis by (simp add: sim_loop_bankrupt)
  next
    case False
    then show ?thesis
      by (simp add: Suc.IH split: prod.splits sum.splits)
  qed
qed

lemma sim_loop_stops_early:
  assumes "sim_loop strat k st0 = Inr st" and "bankroll st \<le> 0" and "k \<le> n"
  shows "sim_loop strat n st0 = Inr st"
proof -
  from assms(3) have "n = k + (n - k)" by simp
  then have "sim_loop strat n st0 = sim_loop strat (k + (n - k)) st0" by simp
  also have "\<dots> = sim_loop strat (n - k) st"
    by (simp only: sim_loop_add assms(1) sum.case)
  also have "\<dots> = Inr st" using assms(2) by (rule sim_loop_bankrupt)
  finally show ?thesis .
qed

subsection \<open>Exact floating-point operations\<close>

text \<open>
  A multiple of one half below \<open>2 ^ 52\<close> in magnitude is a double, so rounding leaves it as
  it is; the operations of a round on whole amounts up to \<open>2 ^ 50\<close> stay within these.
\<close>

lemma bit_length_nonneg: "0 \<le> bit_length n"
  by (induction n rule: bit_length.induct) (subst bit_length.simps, simp)

lemma bit_length_le: "n < 2 ^ k \<Longrightarrow> bit_length n \<le> int k"
proof (induction k arbitrary: n)
  case 0
  then show ?case by (subst bit_length.simps) simp
next
  case (Suc k)
  show ?case
  proof (cases "n \<le> 0")
    case True
    then show ?thesis by (subst bit_length.simps) simp
  next
    case False
    from Suc.prems have "n div 2 < 2 ^ k" by simp
    from Suc.IH [OF this] False show ?thesis
      by (subst bit_length.simps) simp
  qed
qed

lemma double_exponent_le:
  assumes "\<bar>x\<bar> < 2 ^ 52"
  shows "double_exponent x \<le> 51"
proof (cases "\<bar>x\<bar> \<ge> 1")
  case True
  from assms have "\<lfloor>\<bar>x\<bar>\<rfloor> < 2 ^ 52" by (simp add: floor_less_iff)
  then have "bit_length \<lfloor>\<bar>x\<bar>\<rfloor> \<le> int 52" by (rule bit_length_le)
  with True show ?thesis by (simp add: double_exponent_def)
next
  case False
  with bit_length_nonneg [of "\<lceil>1 / \<bar>x\<bar>\<rceil> - 1"] show ?thesis
    by (simp add: double_exponent_def)
qed

lemma round_even_of_int: "round_even (of_int k) = k"
  by (simp add: round_even_def)

lemma round_double_exact:
  assumes "2 * x \<in> \<int>" and "\<bar>x\<bar> < 2 ^ 52"
  shows "round_double x = x"
proof (cases "x = 0")
  case True
  then show ?thesis by (simp add: round_double_def)
next
  case False
  from assms(1) obtain n :: int where n: "2 * x = of_int n" by (auto elim: Ints_cases)
  define j where "j = nat (52 - double_exponent x)"
  from double_exponent_le [OF assms(2)] have e: "\<not> double_exponent x \<ge> 52" and j: "0 < j"
    by (simp_all add: j_def)
  from e have ulp: "double_ulp x = 1 / 2 ^ j"
    by (simp add: double_ulp_def j_def Let_def)
  from j obtain i where i: "j = Suc i" by (cases j) auto
  have "x / double_ulp x = (2 * x) * 2 ^ i" by (simp add: ulp i)
  also have "\<dots> = of_int (n * 2 ^ i)" by (simp add: n)
  finally have q: "x / double_ulp x = of_int (n * 2 ^ i)" .
  have "round_double x = of_int (n * 2 ^ i) * double_ulp x"
    using False by (simp only: round_double_def q round_even_of_int if_False)
  also have "\<dots> = of_int n * 2 ^ i / (2 * 2 ^ i)" by (simp add: ulp i)
  also have "\<dots> = of_int n / 2" by simp
  also have "\<dots> = x" using n by simp
  finally show ?thesis .
qed

lemma float_exact:
  assumes "b \<in> \<int>" and "bet \<in> \<int>" and "\<bar>b\<bar> \<le> 2 ^ 50" and "\<bar>bet\<bar> \<le> 2 ^ 50"
  shows "float_mul bet 1.5 = 1.5 * bet"
    and "float_sub b bet = b - bet"
    and "p \<in> {- bet, 0, bet, 1.5 * bet} \<Longrightarrow> float_add (b - bet) p = b - bet + p"
proof -
  from assms(1) obtain m :: int where m: "b = of_int m" by (auto elim: Ints_cases)
  from assms(2) obtain n :: int where n: "bet = of_int n" by (auto elim: Ints_cases)
  note mn = m n
  have "2 * (bet * 1.5) = of_int (3 * n)" by (simp add: mn)
  then have "2 * (bet * 1.5) \<in> \<int>" by (simp only: Ints_of_int)
  moreover have "\<bar>bet * 1.5\<bar> < 2 ^ 52" using assms(4) by (simp add: abs_mult)
  ultimately show "float_mul bet 1.5 = 1.5 * bet"
    by (simp add: float_mul_def round_double_exact)
  have "2 * (b - bet) = of_int (2 * (m - n))" by (simp add: mn)
  then have "2 * (b - bet) \<in> \<int>" by (simp only: Ints_of_int)
  moreover have "\<bar>b - bet\<bar> < 2 ^ 52" using assms(3,4) by simp
  ultimately show "float_sub b bet = b - bet"
    by (simp add: float_sub_def round_double_exact)
  assume p: "p \<in> {- bet, 0, bet, 1.5 * bet}"
  then obtain k :: int where k: "2 * p = of_int k"
  proof -
    from p have "2 * p = of_int (- 2 * n) \<or> 2 * p = of_int 0 \<or> 2 * p = of_int (2 * n)
       \<or> 2 * p = of_int (3 * n)"
      by (auto simp: mn)
    then show ?thesis using that by blast
  qed
  have "2 * (b - bet + p) = of_int (2 * (m - n) + k)" by (simp add: mn k [symmetric])
  then have "2 * (b - bet + p) \<in> \<int>" by (simp only: Ints_of_int)
  moreover have "\<bar>p\<bar> \<le> 1.5 * \<bar>bet\<bar>" using p by auto
  then have "\<bar>b - bet + p\<bar> < 2 ^ 52" using assms(3,4) by simp
  ultimately show "float_add (b - bet) p = b - bet + p"
    by (simp add: float_add_def round_double_exact)
qed

subsection \<open>Rounds return\<close>

text \<open>
  With at least one deck no draw fails, so both loops of a round return and a round with a
  valid bet yields a result; \<^verbatim>\<open>simulate\<close> then returns a summary whenever the strategy bets
  within the bankroll and neither divisor of the summary is 0.
\<close>

lemma Deck_draw_returns:
  assumes "1 \<le> num_decks d"
  shows "\<exists>c d'. Deck_draw d = (Inr c, d') \<and> num_decks d' = num_decks d"
proof (cases "length (cards d) < 10")
  case True
  have "length (cards (Deck_reset d)) = 52 * nat (num_decks d)"
    by (rule Deck_reset_cards)
  with assms have "cards (Deck_reset d) \<noteq> []" by auto
  from Deck_draw_pop [OF this] True show ?thesis
    by (simp add: Deck_draw_def Let_def Deck_reset_num_decks)
next
  case False
  then have "cards d \<noteq> []" by auto
  from Deck_draw_pop [OF this] False show ?thesis
    by (simp add: Deck_draw_def Let_def)
qed

lemma player_draws_returns:
  assumes "1 \<le> num_decks (deck g)"
  shows "\<exists>g'. player_draws g = (Inr (), g') \<and> num_decks (deck g') = num_decks (deck g)
     \<and> dealer_hand g' = dealer_hand g"
  using Deck_draw_returns [OF assms] by (auto simp: player_draws_def)

lemma dealer_draws_returns:
  assumes "1 \<le> num_decks (deck g)"
  shows "\<exists>g'. dealer_draws g = (Inr (), g') \<and> num_decks (deck g') = num_decks (deck g)
     \<and> dealer_hand g' \<noteq> []"
  using Deck_draw_returns [OF assms] by (auto simp: dealer_draws_def add_card_def)

lemma deal_returns:
  assumes "1 \<le> num_decks (deck g)"
  shows "\<exists>g'. deal g = (Inr (), g') \<and> num_decks (deck g') = num_decks (deck g)
     \<and> dealer_hand g' \<noteq> []"
proof -
  from player_draws_returns [OF assms] obtain g1 where
    1: "player_draws g = (Inr (), g1)" "num_decks (deck g1) = num_decks (deck g)" by blast
  with assms dealer_draws_returns [of g1] obtain g2 where
    2: "dealer_draws g1 = (Inr (), g2)" "num_decks (deck g2) = num_decks (deck g)" by auto
  with assms player_draws_returns [of g2] obtain g3 where
    3: "player_draws g2 = (Inr (), g3)" "num_decks (deck g3) = num_decks (deck g)" by auto
  with assms dealer_draws_returns [of g3] obtain g4 where
    4: "dealer_draws g3 = (Inr (), g4)" "num_decks (deck g4) = num_decks (deck g)"
       "dealer_hand g4 \<noteq> []" by auto
  from 1 2 3 4 show ?thesis
    unfolding deal_def and_then_Inr by blast
qed

lemma player_plays_returns:
  "1 \<le> num_decks (deck g) \<Longrightarrow> dealer_hand g \<noteq> [] \<Longrightarrow>
   \<exists>active g'. player_plays strat g = (Inr active, g')
      \<and> num_decks (deck g') = num_decks (deck g)"
proof (induction g rule: player_turn_induct)
  case (1 g)
  from player_draws_returns [OF "1.prems"(1)] obtain g1 where
    d: "player_draws g = (Inr (), g1)" "num_decks (deck g1) = num_decks (deck g)"
       "dealer_hand g1 = dealer_hand g" by blast
  obtain c0 cs where up: "dealer_hand g = c0 # cs"
    using "1.prems"(2) by (cases "dealer_hand g") auto
  show ?case
  proof (cases "should_hit strat (fst (hand_value (player_hand g)))
      (snd (hand_value (player_hand g))) (card_value c0)")
    case False
    with up show ?thesis
      by (subst player_plays.simps) (auto simp: case_prod_beta)
  next
    case hit: True
    show ?thesis
    proof (cases "21 < fst (hand_value (player_hand g1))")
      case True
      with hit up d show ?thesis
        by (subst player_plays.simps) (auto simp: case_prod_beta)
    next
      case False
      from "1.IH" [OF d(1) False] d "1.prems" obtain active g' where
        "player_plays strat g1 = (Inr active, g')" "num_decks (deck g') = num_decks (deck g)"
        by auto
      with hit up d False show ?thesis
        by (subst player_plays.simps) (auto simp: case_prod_beta)
    qed
  qed
qed

lemma dealer_plays_returns:
  "1 \<le> num_decks (deck g) \<Longrightarrow>
   \<exists>g'. dealer_plays g = (Inr (), g') \<and> num_decks (deck g') = num_decks (deck g)"
proof (induction g rule: dealer_turn_induct)
  case (1 g)
  show ?case
  proof (cases "fst (hand_value (dealer_hand g)) < 17")
    case False
    then show ?thesis by (subst dealer_plays.simps) simp
  next
    case True
    from dealer_draws_returns [OF "1.prems"] obtain g1 where
      d: "dealer_draws g = (Inr (), g1)" "num_decks (deck g1) = num_decks (deck g)" by blast
    from "1.IH" [OF True d(1)] d(2) "1.prems" obtain g' where
      "dealer_plays g1 = (Inr (), g')" "num_decks (deck g') = num_decks (deck g)" by auto
    with True d show ?thesis by (subst dealer_plays.simps) simp
  qed
qed

lemma play_round_returns:
  assumes "1 \<le> num_decks d"
  shows "\<exists>active g. play_round strat d = (Inr active, g) \<and> num_decks (deck g) = num_decks d"
proof -
  from assms deal_returns [of "Game_init d"] obtain g0 where
    0: "deal (Game_init d) = (Inr (), g0)" "num_decks (deck g0) = num_decks d"
       "dealer_hand g0 \<noteq> []"
    by (auto simp: Game_init_def)
  with assms player_plays_returns [of g0 strat] obtain active g1 where
    1: "player_plays strat g0 = (Inr active, g1)" "num_decks (deck g1) = num_decks d" by auto
  with assms dealer_plays_returns [of g1] obtain g2 where
    2: "dealer_plays g1 = (Inr (), g2)" "num_decks (deck g2) = num_decks d" by auto
  from 0 1 2 show ?thesis
    by (cases active) (auto simp: play_round_def)
qed

lemma play_hand_returns:
  assumes "1 \<le> num_decks d" and "0 < get_bet strat b" and "get_bet strat b \<le> b"
  shows "\<exists>new_bankroll payoff d'. play_hand d strat b = (Inr (new_bankroll, payoff), d')
     \<and> num_decks d' = num_decks d"
  using play_round_returns [OF assms(1), of strat] assms(2,3)
  by (auto simp: play_hand_def Let_def)

lemma sim_loop_returns:
  assumes "\<forall>b. 0 < b \<longrightarrow> 0 < get_bet strat b \<and> get_bet strat b \<le> b"
  shows "1 \<le> num_decks (sim_deck st) \<Longrightarrow> \<exists>st'. sim_loop strat n st = Inr st'"
proof (induction n arbitrary: st)
  case 0
  then show ?case by simp
next
  case (Suc n)
  show ?case
  proof (cases "bankroll st \<le> 0")
    case True
    then show ?thesis by simp
  next
    case False
    with assms have "0 < get_bet strat (bankroll st)" "get_bet strat (bankroll st) \<le> bankroll st"
      by auto
    from play_hand_returns [OF Suc.prems this] obtain nb p d' where
      ph: "play_hand (sim_deck st) strat (bankroll st) = (Inr (nb, p), d')"
      "1 \<le> num_decks d'" using Suc.prems by auto
    show ?thesis
      using False ph Suc.IH by simp
  qed
qed

lemma simulate_returns:
  assumes "\<forall>b. 0 < b \<longrightarrow> 0 < get_bet strat b \<and> get_bet strat b \<le> b"
    and "1 \<le> n_decks" and "starting_bankroll \<noteq> 0" and "num_hands \<noteq> 0"
  shows "\<exists>res. simulate strat num_hands n_decks starting_bankroll r = Inr res"
proof -
  have "1 \<le> num_decks (Deck_init n_decks r)"
    using assms(2) by (simp add: Deck_init_def Deck_reset_num_decks)
  then have "\<exists>st'. sim_loop strat (nat num_hands)
      \<lparr>sim_deck = Deck_init n_decks r, bankroll = starting_bankroll,
        wins = 0, losses = 0, pushes = 0\<rparr> = Inr st'"
    by (intro sim_loop_returns [OF assms(1)]) simp
  then show ?thesis
    using assms(3,4) by (auto simp: simulate_def py_div_def Let_def)
qed

section \<open>The claims\<close>

subsection \<open>Hand valuation and blackjack\<close>

text \<open>
  Claim C3. For every hand, \<^verbatim>\<open>Hand.value()\<close> returns \<open>(total, is_soft)\<close> where the total is the
  sum of the card values with every Ace as 11, less 10 for each of \<open>k\<close> Aces turned from 11
  into 1. The loop turns one more Ace only while the total is above 21 (every earlier total
  \<open>base_total h - 10 * j\<close>, \<open>j < k\<close>, is above 21) and stops when the total is at most 21 or
  no Ace is left (\<open>k = num_aces h\<close>); \<open>is_soft\<close> holds iff an Ace is still counted as 11
  (\<open>k < num_aces h\<close>).
\<close>

theorem hand_value_spec:
  "\<exists>k. hand_value h = (base_total h - 10 * k, k < num_aces h)
       \<and> 0 \<le> k \<and> k \<le> num_aces h
       \<and> (\<forall>j. 0 \<le> j \<and> j < k \<longrightarrow> 21 < base_total h - 10 * j)
       \<and> (k < num_aces h \<longrightarrow> base_total h - 10 * k \<le> 21)"
proof (intro exI conjI allI impI)
  show "hand_value h =
      (base_total h - 10 * reduced_aces (base_total h) (num_aces h),
       reduced_aces (base_total h) (num_aces h) < num_aces h)"
    by (rule hand_value_eq)
  show "0 \<le> reduced_aces (base_total h) (num_aces h)"
    using reduced_aces_bounds [OF num_aces_nonneg] by blast
  show "reduced_aces (base_total h) (num_aces h) \<le> num_aces h"
    using reduced_aces_bounds [OF num_aces_nonneg] by blast
  show "21 < base_total h - 10 * j"
    if "0 \<le> j \<and> j < reduced_aces (base_total h) (num_aces h)" for j
    using that reduced_aces_while by blast
  show "base_total h - 10 * reduced_aces (base_total h) (num_aces h) \<le> 21"
    if "reduced_aces (base_total h) (num_aces h) < num_aces h"
    using that by (rule reduced_aces_stop)
qed

text \<open>
  The theorem at \<open>{A, A, 9}\<close> (one Ace turned, soft 21) and at \<open>{10, K, 5, A}\<close> (the only Ace
  turned, hard 26): the properties of \<open>k\<close> leave one value each.
\<close>

theorem hand_value_spec_witness:
  "hand_value [Card Ace, Card Ace, Card Nine] = (21, True)
   \<and> hand_value [Card Ten, Card King, Card Five, Card Ace] = (26, False)"
proof -
  have a: "base_total [Card Ace, Card Ace, Card Nine] = 31" "num_aces [Card Ace, Card Ace, Card Nine] = 2"
    by (simp_all add: base_total_def num_aces_def card_value_def)
  have b: "base_total [Card Ten, Card King, Card Five, Card Ace] = 36"
      "num_aces [Card Ten, Card King, Card Five, Card Ace] = 1"
    by (simp_all add: base_total_def num_aces_def card_value_def)
  obtain k where k: "hand_value [Card Ace, Card Ace, Card Nine] = (31 - 10 * k, k < 2)"
     "0 \<le> k" "k \<le> 2" "\<forall>j. 0 \<le> j \<and> j < k \<longrightarrow> 21 < 31 - 10 * j" "k < 2 \<longrightarrow> 31 - 10 * k \<le> 21"
    using hand_value_spec [of "[Card Ace, Card Ace, Card Nine]"] unfolding a by blast
  have "k = 1"
  proof -
    have "\<not> 1 < k" using k(4) by (auto dest: spec [of _ 1])
    moreover have "k \<noteq> 0" using k(5) by auto
    ultimately show ?thesis using k(2) by linarith
  qed
  obtain m where m: "hand_value [Card Ten, Card King, Card Five, Card Ace] = (36 - 10 * m, m < 1)"
     "0 \<le> m" "m \<le> 1" "m < 1 \<longrightarrow> 36 - 10 * m \<le> 21"
    using hand_value_spec [of "[Card Ten, Card King, Card Five, Card Ace]"] unfolding b by blast
  have "m = 1" using m(2,3,4) by (cases "m < 1") auto
  show ?thesis using k(1) m(1) \<open>k = 1\<close> \<open>m = 1\<close> by simp
qed

text \<open>
  Claim C4. \<^verbatim>\<open>is_blackjack()\<close> holds iff the hand has exactly 2 cards and its total is 21,
  that is, iff the hand is an Ace and a card of value 10 in either order; \<open>{A, K}\<close> is a
  blackjack and \<open>{A, A, 9}\<close>, three cards of total 21, is not.
\<close>

theorem is_blackjack_iff:
  "(is_blackjack h \<longleftrightarrow> length h = 2 \<and> fst (hand_value h) = 21)
   \<and> (is_blackjack h \<longleftrightarrow>
        (\<exists>c. card_value c = 10 \<and> (h = [Card Ace, c] \<or> h = [c, Card Ace])))
   \<and> is_blackjack [Card Ace, Card King]
   \<and> fst (hand_value [Card Ace, Card Ace, Card Nine]) = 21
   \<and> \<not> is_blackjack [Card Ace, Card Ace, Card Nine]"
proof (intro conjI)
  show "is_blackjack h \<longleftrightarrow> length h = 2 \<and> fst (hand_value h) = 21"
    by (simp add: is_blackjack_def)
  show "is_blackjack h \<longleftrightarrow> (\<exists>c. card_value c = 10 \<and> (h = [Card Ace, c] \<or> h = [c, Card Ace]))"
  proof
    assume "is_blackjack h"
    then obtain c1 c2 where h: "h = [c1, c2]" and v: "fst (hand_value [c1, c2]) = 21"
      by (auto simp: is_blackjack_def length_Suc_conv numeral_2_eq_2)
    have r: "2 \<le> card_value c \<and> card_value c \<le> 11 \<and> (card_value c = 11 \<longleftrightarrow> c = Card Ace)" for c
      by (cases c; cases "card_rank c") (auto simp: card_value_def)
    from v r [of c1] r [of c2] have "(c1 = Card Ace \<and> card_value c2 = 10) \<or> (c2 = Card Ace \<and> card_value c1 = 10)"
      by (auto simp: two_card_value split: if_splits)
    with h show "\<exists>c. card_value c = 10 \<and> (h = [Card Ace, c] \<or> h = [c, Card Ace])" by auto
  next
    assume "\<exists>c. card_value c = 10 \<and> (h = [Card Ace, c] \<or> h = [c, Card Ace])"
    then obtain c where c: "card_value c = 10" "h = [Card Ace, c] \<or> h = [c, Card Ace]" by blast
    then have "card_rank c \<noteq> Ace" by (auto simp: card_value_def)
    with c show "is_blackjack h"
      by (auto simp: is_blackjack_def two_card_value card_value_def)
  qed
  show "is_blackjack [Card Ace, Card King]"
    by (simp add: is_blackjack_def two_card_value card_value_def)
  show "fst (hand_value [Card Ace, Card Ace, Card Nine]) = 21"
    by (simp add: hand_value_eq base_total_def num_aces_def card_value_def reduced_aces_def)
  show "\<not> is_blackjack [Card Ace, Card Ace, Card Nine]"
    by (simp add: is_blackjack_def)
qed

theorem is_blackjack_iff_witness:
  "is_blackjack [Card Queen, Card Ace] \<and> \<not> is_blackjack [Card Nine, Card Ace]
   \<and> \<not> is_blackjack [Card Seven, Card Seven, Card Seven]"
  using is_blackjack_iff [of "[Card Queen, Card Ace]"] is_blackjack_iff [of "[Card Nine, Card Ace]"]
    is_blackjack_iff [of "[Card Seven, Card Seven, Card Seven]"]
  by (auto simp: card_value_def)

subsection \<open>The fixed-threshold strategy\<close>

text \<open>
  Claim C9. \<^verbatim>\<open>BasicStrategy.get_bet(bankroll)\<close> is \<open>min 10 bankroll\<close>, and
  \<^verbatim>\<open>should_hit\<close> holds iff the hand is soft with total below 18 or hard with total below 17,
  whatever the dealer's upcard.
\<close>

theorem BasicStrategy_spec:
  "get_bet BasicStrategy b = min 10 b
   \<and> (should_hit BasicStrategy pv soft up \<longleftrightarrow> (soft \<and> pv < 18) \<or> (\<not> soft \<and> pv < 17))
   \<and> should_hit BasicStrategy pv soft up = should_hit BasicStrategy pv soft up'"
  by (simp add: BasicStrategy_def)

theorem BasicStrategy_spec_witness:
  "get_bet BasicStrategy 4 = 4 \<and> get_bet BasicStrategy 250 = 10
   \<and> should_hit BasicStrategy 17 True 10 \<and> \<not> should_hit BasicStrategy 17 False 10
   \<and> \<not> should_hit BasicStrategy 18 True 2 \<and> should_hit BasicStrategy 16 False 2"
  using BasicStrategy_spec [of 4 17 True 10 10] BasicStrategy_spec [of 250 17 False 10 10]
    BasicStrategy_spec [of 4 18 True 2 2] BasicStrategy_spec [of 4 16 False 2 2]
  by simp

subsection \<open>Settlement\<close>

text \<open>
  Claim C1. For every state of the two hands (so for every state a round can end in) and
  every bet, \<^verbatim>\<open>Game.get_result(bet)\<close> is the payoff of the first of the eight ordered rules
  that applies, and some rule always applies: the result is never \<open>None\<close>.
\<close>

theorem get_result_rules:
  "first_match (settlement_rules g bet) = Some (get_result g bet)"
  unfolding settlement_rules_def get_result_def Let_def
  by simp

text \<open>
  The three settlements the specification lists as tests: blackjack against 19 pays 15 on
  a bet of 10, blackjack against blackjack pays 0, and 17 against 20 costs the bet.
\<close>

theorem get_result_rules_witness:
  "get_result (game_of [Ace, King] [Ten, Nine]) 10 = 15
   \<and> get_result (game_of [Ace, Queen] [Ace, King]) 10 = 0
   \<and> get_result (game_of [Ten, Seven] [Ten, Six, Four]) 10 = - 10"
proof -
  have "first_match (settlement_rules (game_of [Ace, King] [Ten, Nine]) 10) = Some 15"
    by code_simp
  moreover have "first_match (settlement_rules (game_of [Ace, Queen] [Ace, King]) 10) = Some 0"
    by code_simp
  moreover have "first_match (settlement_rules (game_of [Ten, Seven] [Ten, Six, Four]) 10) = Some (- 10)"
    by code_simp
  ultimately show ?thesis
    unfolding get_result_rules by simp
qed

subsection \<open>Zero requested hands\<close>

text \<open>
  Claim C2 says that \<^verbatim>\<open>simulate\<close> with \<^verbatim>\<open>num_hands = 0\<close> raises no division error and returns
  a summary with no win, loss or push. The code divides by \<^verbatim>\<open>num_hands\<close> (and before that by
  the starting bankroll) without a guard: for every strategy, number of decks, starting
  bankroll and random source the call raises \<^verbatim>\<open>ZeroDivisionError\<close>.
\<close>

theorem simulate_zero_hands:
  "simulate strat 0 n_decks starting_bankroll r = Inl ZeroDivisionError"
  by (simp add: simulate_def py_div_def Let_def)

subsection \<open>The shoe\<close>

text \<open>
  Claim C5. For every shoe with \<^verbatim>\<open>num_decks >= 1\<close>, \<^verbatim>\<open>draw()\<close> returns a card and never fails.
  When fewer than 10 cards remain before the draw the shoe is reset first, and
  \<^verbatim>\<open>num_decks * 52 - 1\<close> cards remain after the draw; otherwise no reset happens (the cards
  are the old ones without the last, the random source is untouched) and the count is the
  previous one minus 1.
\<close>

theorem Deck_draw_shoe:
  assumes "1 \<le> num_decks d"
  shows "\<exists>c d'. Deck_draw d = (Inr c, d') \<and> num_decks d' = num_decks d \<and>
     (if length (cards d) < 10
      then c = last (cards (Deck_reset d))
         \<and> d' = (Deck_reset d)\<lparr>cards := butlast (cards (Deck_reset d))\<rparr>
         \<and> int (length (cards d')) = num_decks d * 52 - 1
      else c = last (cards d)
         \<and> d' = d\<lparr>cards := butlast (cards d)\<rparr>
         \<and> int (length (cards d')) = int (length (cards d)) - 1)"
proof (cases "length (cards d) < 10")
  case True
  have len: "length (cards (Deck_reset d)) = 52 * nat (num_decks d)"
    by (rule Deck_reset_cards)
  with assms have ne: "cards (Deck_reset d) \<noteq> []" by auto
  have "Deck_draw d =
      (Inr (last (cards (Deck_reset d))), (Deck_reset d)\<lparr>cards := butlast (cards (Deck_reset d))\<rparr>)"
    using True Deck_draw_pop [OF ne] by (simp add: Deck_draw_def Let_def)
  moreover have "int (length (butlast (cards (Deck_reset d)))) = num_decks d * 52 - 1"
    using len assms by simp
  ultimately show ?thesis
    using True by (simp add: Deck_reset_num_decks)
next
  case False
  then have ne: "cards d \<noteq> []" by auto
  have "Deck_draw d = (Inr (last (cards d)), d\<lparr>cards := butlast (cards d)\<rparr>)"
    using False Deck_draw_pop [OF ne] by (simp add: Deck_draw_def Let_def)
  moreover have "int (length (butlast (cards d))) = int (length (cards d)) - 1"
    using False by simp
  ultimately show ?thesis
    using False by simp
qed

text \<open>
  With 12 cards left the draw takes the last card and leaves 11; with 3 cards left the two
  decks are reset and 103 cards remain.
\<close>

theorem Deck_draw_shoe_witness:
  "1 \<le> num_decks small_shoe \<and> 1 \<le> num_decks low_shoe
   \<and> (\<exists>d'. Deck_draw small_shoe = (Inr (Card Five), d') \<and> length (cards d') = 11)
   \<and> (\<exists>c d'. Deck_draw low_shoe = (Inr c, d') \<and> length (cards d') = 103)"
proof -
  have a: "1 \<le> num_decks small_shoe" and b: "1 \<le> num_decks low_shoe"
    by (simp_all add: small_shoe_def low_shoe_def)
  have "\<exists>d'. Deck_draw small_shoe = (Inr (Card Five), d') \<and> length (cards d') = 11"
    using Deck_draw_shoe [OF a] by (auto simp: small_shoe_def)
  moreover have "\<exists>c d'. Deck_draw low_shoe = (Inr c, d') \<and> length (cards d') = 103"
    using Deck_draw_shoe [OF b] by (auto simp: low_shoe_def)
  ultimately show ?thesis using a b by blast
qed

subsection \<open>The bet check\<close>

text \<open>
  Claim C6. \<^verbatim>\<open>play_hand\<close> raises the invalid-bet \<^verbatim>\<open>ValueError\<close> iff the bet the strategy
  returns is at most 0 or above the bankroll (every other error of a round is an
  \<^verbatim>\<open>IndexError\<close>); when it raises, no card was dealt: the shoe is returned as it was passed
  in, cards and random source.
\<close>

theorem play_hand_invalid_bet:
  "((\<exists>x. fst (play_hand d strat b) = Inl (ValueError x))
      \<longleftrightarrow> get_bet strat b \<le> 0 \<or> get_bet strat b > b)
   \<and> (get_bet strat b \<le> 0 \<or> get_bet strat b > b \<longrightarrow>
        play_hand d strat b = (Inl (ValueError (get_bet strat b)), d))"
proof (cases "get_bet strat b \<le> 0 \<or> get_bet strat b > b")
  case True
  then have "play_hand d strat b = (Inl (ValueError (get_bet strat b)), d)"
    by (simp add: play_hand_def Let_def)
  with True show ?thesis by simp
next
  case False
  obtain r g where rg: "play_round strat d = (r, g)" by (cases "play_round strat d")
  have "fst (play_hand d strat b) \<noteq> Inl (ValueError x)" for x
  proof (cases r)
    case (Inl e)
    with rg have "e = IndexError" by (auto dest: play_round_error)
    with False rg Inl show ?thesis by (simp add: play_hand_def Let_def)
  next
    case (Inr a)
    with False rg show ?thesis by (simp add: play_hand_def Let_def)
  qed
  with False show ?thesis by blast
qed

text \<open>
  Bankrolls 0 and -3 with the fixed-threshold strategy (bets 0 and -3), a bet of 25 on a
  bankroll of 20, and a valid bet of 10 on a bankroll of 40.
\<close>

theorem play_hand_invalid_bet_witness:
  "play_hand round_shoe BasicStrategy 0 = (Inl (ValueError 0), round_shoe)
   \<and> play_hand round_shoe BasicStrategy (- 3) = (Inl (ValueError (- 3)), round_shoe)
   \<and> play_hand round_shoe bet_all_plus 20 = (Inl (ValueError 25), round_shoe)
   \<and> (\<forall>x. fst (play_hand round_shoe BasicStrategy 40) \<noteq> Inl (ValueError x))"
proof -
  have "get_bet BasicStrategy 0 = 0" "get_bet BasicStrategy (- 3) = - 3"
    "get_bet bet_all_plus 20 = 25" "get_bet BasicStrategy 40 = 10"
    by (simp_all add: BasicStrategy_def bet_all_plus_def)
  then show ?thesis
    using play_hand_invalid_bet [of round_shoe BasicStrategy 0]
      play_hand_invalid_bet [of round_shoe BasicStrategy "- 3"]
      play_hand_invalid_bet [of round_shoe bet_all_plus 20]
      play_hand_invalid_bet [of round_shoe BasicStrategy 40]
    by simp
qed

subsection \<open>Player bust\<close>

text \<open>
  Claim C7. In every round that ends with the player's total above 21, the player's turn
  returned "not active" and the dealer's turn was skipped: the game at settlement is the
  game as the player's turn left it, the dealer's hand is the two cards of the deal, and
  the payoff is \<open>- bet\<close> whatever the dealer holds.
\<close>

theorem player_bust_skips_dealer:
  assumes "play_round strat d = (Inr active, g)"
    and "21 < fst (hand_value (player_hand g))"
  shows "\<not> active
     \<and> (\<exists>g0. deal (Game_init d) = (Inr (), g0) \<and> player_plays strat g0 = (Inr False, g)
            \<and> dealer_hand g = dealer_hand g0)
     \<and> length (dealer_hand g) = 2
     \<and> get_result g bet = - bet"
  using assms(1)
proof (cases rule: play_round_cases)
  case (player_bust u g0)
  from deal_hands [OF player_bust(1)] have len: "length (dealer_hand g0) = 2"
    by (auto simp: Game_init_def)
  from player_plays_props [OF player_bust(2)] have dh: "dealer_hand g = dealer_hand g0"
    by simp
  have res: "get_result g bet = - bet"
    using assms(2) by (simp add: get_result_def Let_def)
  with player_bust len dh show ?thesis by auto
next
  case (dealer_played u g0 g1)
  from deal_hands [OF dealer_played(1)] have "length (player_hand g0) = 2"
    by (auto simp: Game_init_def)
  then have "fst (hand_value (player_hand g0)) \<le> 21" by (rule two_card_value_le)
  with player_plays_props [OF dealer_played(2)]
  have "fst (hand_value (player_hand g1)) \<le> 21" by simp
  with dealer_plays_props [OF dealer_played(3)] assms(2) show ?thesis by simp
qed simp_all

text \<open>
  On \<open>round_shoe\<close> the fixed-threshold player hits 16 and busts with 26; the dealer keeps
  5 and 6, a total of 11 on which the dealer's turn would have drawn.
\<close>

theorem player_bust_skips_dealer_witness:
  "\<exists>g. play_round BasicStrategy round_shoe = (Inr False, g)
      \<and> player_hand g = map Card [Ten, Six, King]
      \<and> dealer_hand g = map Card [Five, Six]
      \<and> fst (hand_value (dealer_hand g)) = 11
      \<and> get_result g 10 = - 10"
proof -
  obtain a g where ag: "play_round BasicStrategy round_shoe = (a, g)"
    by (cases "play_round BasicStrategy round_shoe")
  have "fst (play_round BasicStrategy round_shoe) = Inr False"
    "player_hand (snd (play_round BasicStrategy round_shoe)) = map Card [Ten, Six, King]"
    "dealer_hand (snd (play_round BasicStrategy round_shoe)) = map Card [Five, Six]"
    by code_simp+
  with ag have e: "play_round BasicStrategy round_shoe = (Inr False, g)"
    "player_hand g = map Card [Ten, Six, King]" "dealer_hand g = map Card [Five, Six]"
    by simp_all
  have v: "21 < fst (hand_value (player_hand g))" "fst (hand_value (dealer_hand g)) = 11"
    unfolding e by code_simp+
  from player_bust_skips_dealer [OF e(1) v(1), of 10] e v(2)
  show ?thesis by simp
qed

subsection \<open>Payoff and bankroll\<close>

text \<open>
  Claim C10 says that the payoff is one of \<open>- bet\<close>, \<open>0\<close>, \<open>bet\<close> and \<open>1.5 * bet\<close>, that the new
  bankroll is \<open>bankroll - bet + payoff\<close>, and that a win therefore leaves the bankroll exactly
  unchanged, a push takes the bet, a loss twice the bet and a blackjack win adds half the
  bet. The source computes \<^verbatim>\<open>bankroll - bet + payoff\<close> in two rounded operations on doubles,
  and the consequences fail where these round. With the bet of 10: from \<open>2 ^ 55 + 8\<close> a loss
  leaves \<open>2 ^ 55 - 8\<close> (16 less, not 20), a push \<open>2 ^ 55\<close> (8 less, not 10) and a blackjack
  win \<open>2 ^ 55 + 16\<close> (8 more, not 5); from \<open>2 ^ 54 + 12\<close> a win leaves \<open>2 ^ 54 + 8\<close>.
\<close>

theorem play_hand_payoff_counterexample:
  "fst (play_hand round_shoe BasicStrategy (2 ^ 55 + 8)) = Inr (2 ^ 55 - 8, - 10)
   \<and> (2 ^ 55 - 8 :: real) \<noteq> 2 ^ 55 + 8 - 2 * 10
   \<and> fst (play_hand win_shoe BasicStrategy (2 ^ 54 + 12)) = Inr (2 ^ 54 + 8, 10)
   \<and> (2 ^ 54 + 8 :: real) \<noteq> 2 ^ 54 + 12
   \<and> fst (play_hand push_shoe BasicStrategy (2 ^ 55 + 8)) = Inr (2 ^ 55, 0)
   \<and> (2 ^ 55 :: real) \<noteq> 2 ^ 55 + 8 - 10
   \<and> fst (play_hand blackjack_shoe BasicStrategy (2 ^ 55 + 8)) = Inr (2 ^ 55 + 16, 15)
   \<and> (2 ^ 55 + 16 :: real) \<noteq> 2 ^ 55 + 8 + 0.5 * 10"
proof (intro conjI)
  show "fst (play_hand round_shoe BasicStrategy (2 ^ 55 + 8)) = Inr (2 ^ 55 - 8, - 10)"
    by code_simp
  show "fst (play_hand win_shoe BasicStrategy (2 ^ 54 + 12)) = Inr (2 ^ 54 + 8, 10)"
    by code_simp
  show "fst (play_hand push_shoe BasicStrategy (2 ^ 55 + 8)) = Inr (2 ^ 55, 0)"
    by code_simp
  show "fst (play_hand blackjack_shoe BasicStrategy (2 ^ 55 + 8)) = Inr (2 ^ 55 + 16, 15)"
    by code_simp
qed simp_all

text \<open>
  Claim C10, amended. When \<^verbatim>\<open>play_hand\<close> returns, the payoff is the settlement of the round it
  played and is one of \<open>- bet\<close>, \<open>0\<close>, \<open>bet\<close> and \<^verbatim>\<open>bet * 1.5\<close> (the product rounded to a
  double), and the new bankroll is \<^verbatim>\<open>bankroll - bet + payoff\<close> with each of the two
  operations rounded to a double. When the bankroll and the bet are whole numbers of
  magnitude at most \<open>2 ^ 50\<close> no operation rounds: the payoff is one of \<open>- bet\<close>, \<open>0\<close>,
  \<open>bet\<close> and \<open>1.5 * bet\<close>, and the new bankroll is exactly \<open>bankroll - bet + payoff\<close>, so
  unchanged on a payoff of \<open>bet\<close>, less the bet on a push, less twice the bet on a loss, and
  plus half the bet on a blackjack win.
\<close>

theorem play_hand_payoff:
  assumes "fst (play_hand d strat b) = Inr (new_bankroll, payoff)"
  shows "payoff \<in> {- get_bet strat b, 0, get_bet strat b, float_mul (get_bet strat b) 1.5}
     \<and> new_bankroll = float_add (float_sub b (get_bet strat b)) payoff
     \<and> (\<exists>active g. play_round strat d = (Inr active, g) \<and> payoff = get_result g (get_bet strat b))
     \<and> (b \<in> \<int> \<and> get_bet strat b \<in> \<int> \<and> \<bar>b\<bar> \<le> 2 ^ 50 \<and> \<bar>get_bet strat b\<bar> \<le> 2 ^ 50 \<longrightarrow>
          payoff \<in> {- get_bet strat b, 0, get_bet strat b, 1.5 * get_bet strat b}
        \<and> new_bankroll = b - get_bet strat b + payoff
        \<and> (payoff = get_bet strat b \<longrightarrow> new_bankroll = b)
        \<and> (payoff = 0 \<longrightarrow> new_bankroll = b - get_bet strat b)
        \<and> (payoff = - get_bet strat b \<longrightarrow> new_bankroll = b - 2 * get_bet strat b)
        \<and> (payoff = 1.5 * get_bet strat b \<longrightarrow> new_bankroll = b + 0.5 * get_bet strat b))"
proof -
  obtain r g where rg: "play_round strat d = (r, g)" by (cases "play_round strat d")
  from assms rg obtain active where
    r: "r = Inr active" and
    p: "payoff = get_result g (get_bet strat b)" and
    n: "new_bankroll = float_add (float_sub b (get_bet strat b)) payoff"
    by (cases r) (auto simp: play_hand_def Let_def split: if_splits)
  have "get_result g x \<in> {- x, 0, x, float_mul x 1.5}" for x
    by (simp add: get_result_def Let_def)
  with p have 1: "payoff \<in> {- get_bet strat b, 0, get_bet strat b, float_mul (get_bet strat b) 1.5}"
    by blast
  from rg r p
  have 2: "\<exists>active g. play_round strat d = (Inr active, g) \<and> payoff = get_result g (get_bet strat b)"
    by blast
  have 3: "payoff \<in> {- get_bet strat b, 0, get_bet strat b, 1.5 * get_bet strat b}
        \<and> new_bankroll = b - get_bet strat b + payoff"
    if h: "b \<in> \<int> \<and> get_bet strat b \<in> \<int> \<and> \<bar>b\<bar> \<le> 2 ^ 50 \<and> \<bar>get_bet strat b\<bar> \<le> 2 ^ 50"
  proof -
    from h have a: "b \<in> \<int>" "get_bet strat b \<in> \<int>" "\<bar>b\<bar> \<le> 2 ^ 50" "\<bar>get_bet strat b\<bar> \<le> 2 ^ 50"
      by simp_all
    have m: "payoff \<in> {- get_bet strat b, 0, get_bet strat b, 1.5 * get_bet strat b}"
      using 1 unfolding float_exact(1) [OF a] .
    have "new_bankroll = b - get_bet strat b + payoff"
      unfolding n float_exact(2) [OF a] by (rule float_exact(3) [OF a m])
    with m show ?thesis by simp
  qed
  from 1 2 3 n show ?thesis by auto
qed

text \<open>
  A lost round on \<open>round_shoe\<close> (100 becomes 80) and a blackjack against 19 on
  \<open>blackjack_shoe\<close> (100 becomes 105).
\<close>

theorem play_hand_payoff_witness:
  "fst (play_hand round_shoe BasicStrategy 100) = Inr (80, - 10)
   \<and> fst (play_hand blackjack_shoe BasicStrategy 100) = Inr (105, 15)
   \<and> (80 :: real) = 100 - 2 * 10 \<and> (105 :: real) = 100 + 0.5 * 10
   \<and> (\<exists>active g. play_round BasicStrategy round_shoe = (Inr active, g) \<and> get_result g 10 = - 10)
   \<and> (\<exists>active g. play_round BasicStrategy blackjack_shoe = (Inr active, g) \<and> get_result g 10 = 15)"
proof -
  have a: "fst (play_hand round_shoe BasicStrategy 100) = Inr (80, - 10)"
    by code_simp
  have b: "fst (play_hand blackjack_shoe BasicStrategy 100) = Inr (105, 15)"
    by code_simp
  have c: "get_bet BasicStrategy 100 = 10" by (simp add: BasicStrategy_def)
  from play_hand_payoff [OF a] play_hand_payoff [OF b] a b show ?thesis
    unfolding c by auto
qed

subsection \<open>Bankruptcy\<close>

text \<open>
  Claim C8. If after \<open>k < num_hands\<close> iterations of the simulation loop the bankroll is at
  most 0, the loop of \<^verbatim>\<open>simulate\<close> ends in that very state (no further round is played: the
  shoe and the counters are those of that state), and wins + losses + pushes is at most \<open>k\<close>,
  so below \<^verbatim>\<open>num_hands\<close>; the summary reports these counters (a summary exists when the
  starting bankroll is not 0, the divisor of the return on investment).
\<close>

theorem simulate_bankruptcy:
  assumes "sim_loop strat k
      \<lparr>sim_deck = Deck_init n_decks r, bankroll = starting_bankroll,
        wins = 0, losses = 0, pushes = 0\<rparr> = Inr st"
    and "bankroll st \<le> 0"
    and "int k < num_hands"
  shows "sim_loop strat (nat num_hands)
      \<lparr>sim_deck = Deck_init n_decks r, bankroll = starting_bankroll,
        wins = 0, losses = 0, pushes = 0\<rparr> = Inr st
     \<and> wins st + losses st + pushes st \<le> int k
     \<and> wins st + losses st + pushes st < num_hands
     \<and> (starting_bankroll \<noteq> 0 \<longrightarrow>
          (\<exists>res. simulate strat num_hands n_decks starting_bankroll r = Inr res
             \<and> final_bankroll res = bankroll st
             \<and> sum_wins res = wins st \<and> sum_losses res = losses st \<and> sum_pushes res = pushes st
             \<and> sum_wins res + sum_losses res + sum_pushes res < num_hands))"
proof -
  let ?st0 = "\<lparr>sim_deck = Deck_init n_decks r, bankroll = starting_bankroll,
        wins = 0, losses = 0, pushes = 0\<rparr>"
  from assms(3) have "k \<le> nat num_hands" by simp
  with assms(1,2) have loop: "sim_loop strat (nat num_hands) ?st0 = Inr st"
    by (rule sim_loop_stops_early)
  from sim_loop_rounds [OF assms(1)] have le: "wins st + losses st + pushes st \<le> int k"
    by (simp add: rounds_def)
  from assms(3) have "num_hands \<noteq> 0" by auto
  with le loop assms(3) show ?thesis
    by (simp add: simulate_def py_div_def Let_def)
qed

text \<open>
  Three hands requested with a bankroll of 10 on one deck: the first round is lost, the
  bankroll is -10 and the run ends with one loss counted.
\<close>

theorem simulate_bankruptcy_witness:
  "\<exists>res. simulate BasicStrategy 3 1 10 (\<lambda>_. 0) = Inr res
      \<and> final_bankroll res = - 10
      \<and> sum_wins res = 0 \<and> sum_losses res = 1 \<and> sum_pushes res = 0
      \<and> sum_wins res + sum_losses res + sum_pushes res < 3"
proof -
  let ?st0 = "\<lparr>sim_deck = Deck_init 1 (\<lambda>_. 0), bankroll = 10,
        wins = 0, losses = 0, pushes = 0\<rparr>"
  have "case sim_loop BasicStrategy 1 ?st0 of
          Inl e \<Rightarrow> False
        | Inr st \<Rightarrow> bankroll st = - 10 \<and> wins st = 0 \<and> losses st = 1 \<and> pushes st = 0"
    by code_simp
  then obtain st where st: "sim_loop BasicStrategy 1 ?st0 = Inr st"
    "bankroll st = - 10" "wins st = 0" "losses st = 1" "pushes st = 0"
    by (auto split: sum.splits)
  have "bankroll st \<le> 0" using st(2) by simp
  from simulate_bankruptcy [OF st(1) this, of 3] st(2-5) show ?thesis
    by auto
qed

end
